theory Spec2Isabelle
  imports Main "HOL-Library.Multiset"
begin

section \<open>Data model of \<^verbatim>\<open>timeline.py\<close>\<close>

text \<open>
  A \<^verbatim>\<open>pd.Timestamp\<close> of a \<^verbatim>\<open>datetime64[ns]\<close> column is a number of nanoseconds;
  only its order and equality are used, so it is an \<open>int\<close>. A segment is the tuple
  \<^verbatim>\<open>(start, end, value)\<close>; the backing DataFrame \<^verbatim>\<open>_df\<close> is the list of its rows in
  positional order (every access of the source is positional: \<^verbatim>\<open>iloc\<close>, \<^verbatim>\<open>iat\<close>,
  \<^verbatim>\<open>iterrows\<close>, or \<^verbatim>\<open>at\<close> after \<^verbatim>\<open>reset_index(drop=True)\<close>). What \<^verbatim>\<open>==\<close> does on two
  values belongs to the value type and is a parameter of the one operator that uses it.
\<close>

type_synonym timestamp = int
type_synonym 'v segment = "timestamp \<times> timestamp \<times> 'v"
type_synonym 'v timeline = "'v segment list"

fun seg_start :: "'v segment \<Rightarrow> timestamp" where
  "seg_start (s, e, v) = s"

fun seg_end :: "'v segment \<Rightarrow> timestamp" where
  "seg_end (s, e, v) = e"

fun seg_value :: "'v segment \<Rightarrow> 'v" where
  "seg_value (s, e, v) = v"

datatype error = AssertionError string | ValueError string | IndexError | KeyError | TypeError

section \<open>Validation and the validating constructors\<close>

text \<open>
  \<^verbatim>\<open>_validate\<close>: the assertions in source order. The column-name and dtype assertions
  hold by typing here. \<^verbatim>\<open>is_monotonic_increasing\<close> of pandas is the non-strict order
  (equal neighbours pass), which is \<^const>\<open>sorted\<close>.
\<close>

definition validate :: "'v timeline \<Rightarrow> error + unit" where
  "validate df =
     (if \<not> length df > 0 then Inl (AssertionError ''Timeline must have at least one segment'')
      else if \<not> sorted (map seg_start df)
        then Inl (AssertionError ''Segments must be sorted by start time'')
      else if \<not> (length df \<le> 1 \<or> map seg_end (butlast df) = map seg_start (tl df))
        then Inl (AssertionError ''Segments must be contiguous'')
      else if \<not> list_all (\<lambda>s. seg_start s < seg_end s) df
        then Inl (AssertionError ''Start must be before end'')
      else Inr ())"

definition from_segments :: "'v segment list \<Rightarrow> error + 'v timeline" where
  "from_segments segments =
     (case validate segments of Inl e \<Rightarrow> Inl e | Inr _ \<Rightarrow> Inr segments)"

definition from_dataframe :: "'v timeline \<Rightarrow> error + 'v timeline" where
  "from_dataframe df =
     (case validate df of Inl e \<Rightarrow> Inl e | Inr _ \<Rightarrow> Inr df)"

text \<open>The properties \<^verbatim>\<open>start\<close> and \<^verbatim>\<open>end\<close>: \<^verbatim>\<open>iloc[0]\<close> and \<^verbatim>\<open>iloc[-1]\<close> raise
  \<^verbatim>\<open>IndexError\<close> on a frame without rows.\<close>

definition tl_start :: "'v timeline \<Rightarrow> error + timestamp" where
  "tl_start df = (case df of [] \<Rightarrow> Inl IndexError | s # _ \<Rightarrow> Inr (seg_start s))"

definition tl_end :: "'v timeline \<Rightarrow> error + timestamp" where
  "tl_end df = (if df = [] then Inl IndexError else Inr (seg_end (last df)))"

section \<open>The operators\<close>

text \<open>
  \<^verbatim>\<open>map\<close>: \<^verbatim>\<open>assign(value=...apply(func))\<close> keeps the start and end columns and goes
  through the validating \<^verbatim>\<open>from_dataframe\<close>.
\<close>

definition map_timeline :: "('v \<Rightarrow> 'u) \<Rightarrow> 'v timeline \<Rightarrow> error + 'u timeline" where
  "map_timeline func df =
     from_dataframe (map (\<lambda>row. (seg_start row, seg_end row, func (seg_value row))) df)"

text \<open>
  \<^verbatim>\<open>slice\<close>: the boolean mask, then the two positional writes \<^verbatim>\<open>iat[0, start]\<close> and
  \<^verbatim>\<open>iat[-1, end]\<close> in sequence (the second test reads the frame after the first write),
  and the private constructor, which validates nothing. No statement of it can raise.
\<close>

definition slice :: "'v timeline \<Rightarrow> timestamp \<Rightarrow> timestamp \<Rightarrow> 'v timeline" where
  "slice df lo hi =
     (let sliced = filter (\<lambda>s. seg_end s > lo \<and> seg_start s < hi) df in
      if sliced \<noteq> [] then
        let sliced1 =
              (if seg_start (sliced ! 0) < lo
               then sliced[0 := (lo, seg_end (sliced ! 0), seg_value (sliced ! 0))]
               else sliced);
            n = length sliced1 - 1;
            sliced2 =
              (if seg_end (sliced1 ! n) > hi
               then sliced1[n := (seg_start (sliced1 ! n), hi, seg_value (sliced1 ! n))]
               else sliced1)
        in sliced2
      else sliced)"





text \<open>
  \<^verbatim>\<open>from_segments_with_gaps\<close>: Python's \<^verbatim>\<open>sorted\<close> with a key is stable, as
  \<^const>\<open>sort_key\<close> is; the loop carries \<^verbatim>\<open>filled_segments\<close> and the index \<^verbatim>\<open>i\<close> of
  \<^verbatim>\<open>enumerate\<close>.
\<close>

fun fill_loop :: "'v segment list \<Rightarrow> 'v \<Rightarrow> nat \<Rightarrow> 'v segment list \<Rightarrow> 'v segment list" where
  "fill_loop filled_segments gap_value i [] = filled_segments"
| "fill_loop filled_segments gap_value i (seg # rest) =
     (let filled1 =
            (if i > 0 then
               (let prev_segment = last filled_segments in
                if seg_end prev_segment < seg_start seg
                then filled_segments @ [(seg_end prev_segment, seg_start seg, gap_value)]
                else filled_segments)
             else filled_segments)
      in fill_loop (filled1 @ [(seg_start seg, seg_end seg, seg_value seg)]) gap_value (i + 1) rest)"

definition from_segments_with_gaps :: "'v segment list \<Rightarrow> 'v \<Rightarrow> error + 'v timeline" where
  "from_segments_with_gaps segments gap_value =
     (if segments = [] then Inl (ValueError ''Timeline must have at least one segment'')
      else from_segments (fill_loop [] gap_value 0 (sort_key seg_start segments)))"

text \<open>
  \<^verbatim>\<open>cross_product\<close>. The two list comprehensions over \<^verbatim>\<open>tl.start\<close> and \<^verbatim>\<open>tl.end\<close> raise
  at the first timeline without rows; \<^verbatim>\<open>all(s == starts[0] for s in starts)\<close> never
  reads \<^verbatim>\<open>starts[0]\<close> when \<^verbatim>\<open>starts\<close> is empty. \<^verbatim>\<open>sorted(boundaries)\<close> of the set of all
  starts and ends is the sorted list without duplicates. The cursors \<^verbatim>\<open>idxs\<close> are carried
  from one boundary to the next; the \<^verbatim>\<open>while\<close> loop is \<open>advance\<close>, and \<^verbatim>\<open>df.at\<close> raises
  \<^verbatim>\<open>KeyError\<close> on a label that is not a row.
\<close>

fun collect :: "('a \<Rightarrow> error + 'b) \<Rightarrow> 'a list \<Rightarrow> error + 'b list" where
  "collect f [] = Inr []"
| "collect f (x # xs) =
     (case f x of
        Inl e \<Rightarrow> Inl e
      | Inr y \<Rightarrow> (case collect f xs of Inl e \<Rightarrow> Inl e | Inr ys \<Rightarrow> Inr (y # ys)))"

definition boundaries :: "'v timeline list \<Rightarrow> timestamp list" where
  "boundaries timelines =
     sort (remdups (concat (map (\<lambda>df. map seg_start df @ map seg_end df) timelines)))"

function advance :: "'v timeline \<Rightarrow> nat \<Rightarrow> timestamp \<Rightarrow> nat" where
  "advance df idx t =
     (if idx + 1 < length df \<and> seg_start (df ! (idx + 1)) \<le> t
      then advance df (idx + 1) t else idx)"
  by pat_completeness auto
termination
  by (relation "measure (\<lambda>(df, idx, t). length df - idx)") auto

definition at_value :: "'v timeline \<Rightarrow> nat \<Rightarrow> error + 'v" where
  "at_value df idx = (if idx < length df then Inr (seg_value (df ! idx)) else Inl KeyError)"

fun inner_loop :: "'v timeline list \<Rightarrow> nat list \<Rightarrow> timestamp \<Rightarrow> error + (nat list \<times> 'v list)" where
  "inner_loop (df # dfs) (idx # idxs) t =
     (let idx' = advance df idx t in
      case at_value df idx' of
        Inl e \<Rightarrow> Inl e
      | Inr v \<Rightarrow>
          (case inner_loop dfs idxs t of
             Inl e \<Rightarrow> Inl e
           | Inr (idxs', vs) \<Rightarrow> Inr (idx' # idxs', v # vs)))"
| "inner_loop dfs idxs t = Inr ([], [])"

fun outer_loop ::
  "'v timeline list \<Rightarrow> nat list \<Rightarrow> timestamp list \<Rightarrow> error + ('v list) segment list" where
  "outer_loop dfs idxs (b # b' # bs) =
     (case inner_loop dfs idxs b of
        Inl e \<Rightarrow> Inl e
      | Inr (idxs', vs) \<Rightarrow>
          (case outer_loop dfs idxs' (b' # bs) of
             Inl e \<Rightarrow> Inl e
           | Inr segments \<Rightarrow> Inr ((b, b', vs) # segments)))"
| "outer_loop dfs idxs bs = Inr []"

definition all_same :: "timestamp list \<Rightarrow> bool" where
  "all_same xs = (case xs of [] \<Rightarrow> True | x0 # _ \<Rightarrow> list_all (\<lambda>x. x = x0) xs)"

definition cross_product :: "'v timeline list \<Rightarrow> error + ('v list) timeline" where
  "cross_product timelines =
     (case collect tl_start timelines of
        Inl e \<Rightarrow> Inl e
      | Inr starts \<Rightarrow>
     (case collect tl_end timelines of
        Inl e \<Rightarrow> Inl e
      | Inr ends \<Rightarrow>
     if \<not> all_same starts
       then Inl (AssertionError ''All timelines must start at the same time'')
     else if \<not> all_same ends
       then Inl (AssertionError ''All timelines must end at the same time'')
     else
       (case outer_loop timelines (replicate (length timelines) 0) (boundaries timelines) of
          Inl e \<Rightarrow> Inl e
        | Inr segments \<Rightarrow> from_segments segments)))"

section \<open>What the specification says the operators compute\<close>



text \<open>
  Gap filling as the specification words it: between every two neighbours of the sorted
  list of which the first ends strictly before the second starts, the segment from that
  end to that start with the gap value.
\<close>

fun gaps_between :: "'v \<Rightarrow> 'v segment list \<Rightarrow> 'v segment list" where
  "gaps_between gap_value (prev # next # rest) =
     prev #
     (if seg_end prev < seg_start next then [(seg_end prev, seg_start next, gap_value)] else []) @
     gaps_between gap_value (next # rest)"
| "gaps_between gap_value segs = segs"

text \<open>
  The value a timeline holds at an instant: that of the segment whose half-open interval
  contains the instant. The cross product as the specification words it: one segment for
  every two neighbours of the sorted set of all starts and ends, carrying the values the
  timelines hold at the first of the two.
\<close>

definition value_at :: "'v timeline \<Rightarrow> timestamp \<Rightarrow> 'v option" where
  "value_at df t = map_option seg_value (find (\<lambda>s. seg_start s \<le> t \<and> t < seg_end s) df)"

definition all_boundaries :: "'v timeline list \<Rightarrow> timestamp list" where
  "all_boundaries timelines =
     sorted_list_of_set (\<Union>df \<in> set timelines. seg_start ` set df \<union> seg_end ` set df)"

definition cross_spec :: "'v timeline list \<Rightarrow> (timestamp \<times> timestamp \<times> 'v option list) list" where
  "cross_spec timelines =
     map (\<lambda>(b, b'). (b, b', map (\<lambda>df. value_at df b) timelines))
       (zip (all_boundaries timelines) (tl (all_boundaries timelines)))"

section \<open>Auxiliary notions for the proofs\<close>

text \<open>Validity by recursion on the list: every segment is a proper interval and ends
  where the next one starts.\<close>

fun chain :: "'v segment list \<Rightarrow> bool" where
  "chain [] = True"
| "chain [s] = (seg_start s < seg_end s)"
| "chain (s # s' # rest) = (seg_start s < seg_end s \<and> seg_end s = seg_start s' \<and> chain (s' # rest))"

text \<open>Contiguity, and an overlap between two neighbours, by recursion on the list.\<close>

fun contig :: "'v segment list \<Rightarrow> bool" where
  "contig (s # s' # rest) = (seg_end s = seg_start s' \<and> contig (s' # rest))"
| "contig segs = True"

fun overlapping :: "'v segment list \<Rightarrow> bool" where
  "overlapping (s # s' # rest) = (seg_start s' < seg_end s \<or> overlapping (s' # rest))"
| "overlapping segs = False"


section \<open>Facts about validated timelines\<close>

lemma short_contiguous:
  "length df \<le> 1 \<Longrightarrow> map seg_end (butlast df) = map seg_start (tl df)"
  by (cases df) auto

lemma validate_ok_iff:
  "validate df = Inr () \<longleftrightarrow>
     df \<noteq> [] \<and> sorted (map seg_start df) \<and>
     map seg_end (butlast df) = map seg_start (tl df) \<and>
     list_all (\<lambda>s. seg_start s < seg_end s) df"
  using short_contiguous [of df] by (auto simp: validate_def)

lemma from_segments_ok_iff: "from_segments df = Inr r \<longleftrightarrow> validate df = Inr () \<and> r = df"
  by (auto simp: from_segments_def split: sum.splits)

lemma sorted_starts_nth:
  "sorted (map seg_start df) \<longleftrightarrow>
     (\<forall>i. Suc i < length df \<longrightarrow> seg_start (df ! i) \<le> seg_start (df ! Suc i))"
  by (simp add: sorted_iff_nth_Suc)

lemma contiguous_nth:
  "map seg_end (butlast df) = map seg_start (tl df) \<longleftrightarrow>
     (\<forall>i. Suc i < length df \<longrightarrow> seg_end (df ! i) = seg_start (df ! Suc i))"
proof -
  have "map seg_end (butlast df) = map seg_start (tl df) \<longleftrightarrow>
      (\<forall>i < length df - 1. seg_end (butlast df ! i) = seg_start (tl df ! i))"
    by (simp add: list_eq_iff_nth_eq)
  also have "\<dots> \<longleftrightarrow> (\<forall>i. Suc i < length df \<longrightarrow> seg_end (df ! i) = seg_start (df ! Suc i))"
    by (auto simp: nth_butlast nth_tl less_diff_conv)
  finally show ?thesis .
qed

lemma positive_nth:
  "list_all (\<lambda>s. seg_start s < seg_end s) df \<longleftrightarrow>
     (\<forall>i < length df. seg_start (df ! i) < seg_end (df ! i))"
  by (simp add: list_all_length)

lemma validate_cases:
  "validate df =
     (if df = [] then Inl (AssertionError ''Timeline must have at least one segment'')
      else if \<not> sorted (map seg_start df)
        then Inl (AssertionError ''Segments must be sorted by start time'')
      else if map seg_end (butlast df) \<noteq> map seg_start (tl df)
        then Inl (AssertionError ''Segments must be contiguous'')
      else if \<not> list_all (\<lambda>s. seg_start s < seg_end s) df
        then Inl (AssertionError ''Start must be before end'')
      else Inr ())"
  using short_contiguous [of df] by (auto simp: validate_def)

lemma valid_strict_starts:
  assumes "validate df = Inr ()"
  shows "sorted_wrt (<) (map seg_start df)"
proof -
  from assms have c: "\<forall>i. Suc i < length df \<longrightarrow> seg_end (df ! i) = seg_start (df ! Suc i)"
    and p: "\<forall>i < length df. seg_start (df ! i) < seg_end (df ! i)"
    by (simp_all add: validate_ok_iff contiguous_nth positive_nth)
  have "\<forall>i. Suc i < length (map seg_start df) \<longrightarrow> map seg_start df ! i < map seg_start df ! Suc i"
    using c p by (metis Suc_lessD length_map nth_map)
  then show ?thesis
    by (simp add: sorted_wrt_iff_nth_Suc_transp)
qed

section \<open>Validation order of \<^verbatim>\<open>from_segments\<close>\<close>

text \<open>
  Claim C2, as the code has it. \<^verbatim>\<open>from_segments\<close> runs the four checks in the order
  emptiness, start order, contiguity, start before end, each with its own message, and
  returns its input unchanged (never re-sorted) on success. The start-order check is the
  non-strict one: an input with a descending neighbouring pair of starts fails with the
  sorted-by-start-time message, while an input whose starts never descend but repeat is
  passed on to the later checks and fails there, with the contiguity or the
  start-before-end message. Every accepted input has strictly increasing starts.
\<close>

theorem from_segments_check_order:
  "(segs = [] \<longrightarrow>
      from_segments segs = Inl (AssertionError ''Timeline must have at least one segment'')) \<and>
   (segs \<noteq> [] \<and> (\<exists>i. Suc i < length segs \<and> seg_start (segs ! Suc i) < seg_start (segs ! i)) \<longrightarrow>
      from_segments segs = Inl (AssertionError ''Segments must be sorted by start time'')) \<and>
   (segs \<noteq> [] \<and>
    (\<forall>i. Suc i < length segs \<longrightarrow> seg_start (segs ! i) \<le> seg_start (segs ! Suc i)) \<and>
    (\<exists>i. Suc i < length segs \<and> seg_end (segs ! i) \<noteq> seg_start (segs ! Suc i)) \<longrightarrow>
      from_segments segs = Inl (AssertionError ''Segments must be contiguous'')) \<and>
   (segs \<noteq> [] \<and>
    (\<forall>i. Suc i < length segs \<longrightarrow> seg_start (segs ! i) \<le> seg_start (segs ! Suc i)) \<and>
    (\<forall>i. Suc i < length segs \<longrightarrow> seg_end (segs ! i) = seg_start (segs ! Suc i)) \<and>
    (\<exists>i < length segs. seg_end (segs ! i) \<le> seg_start (segs ! i)) \<longrightarrow>
      from_segments segs = Inl (AssertionError ''Start must be before end'')) \<and>
   (segs \<noteq> [] \<and>
    (\<forall>i. Suc i < length segs \<longrightarrow> seg_end (segs ! i) = seg_start (segs ! Suc i)) \<and>
    (\<forall>i < length segs. seg_start (segs ! i) < seg_end (segs ! i)) \<longrightarrow>
      from_segments segs = Inr segs) \<and>
   (\<forall>r. from_segments segs = Inr r \<longrightarrow> r = segs \<and> sorted_wrt (<) (map seg_start segs)) \<and>
   (segs \<noteq> [] \<and>
    (\<forall>i. Suc i < length segs \<longrightarrow> seg_start (segs ! i) \<le> seg_start (segs ! Suc i)) \<and>
    (\<exists>i. Suc i < length segs \<and> seg_start (segs ! i) = seg_start (segs ! Suc i)) \<longrightarrow>
      from_segments segs = Inl (AssertionError ''Segments must be contiguous'') \<or>
      from_segments segs = Inl (AssertionError ''Start must be before end''))"
  (is "?A \<and> ?B \<and> ?C \<and> ?D \<and> ?E \<and> ?F \<and> ?G")
proof -
  have a: ?A by (simp add: from_segments_def validate_cases)
  have b: ?B
    using sorted_starts_nth [of segs]
    by (auto simp: from_segments_def validate_cases not_le)
  have c: ?C
    using sorted_starts_nth [of segs] contiguous_nth [of segs]
    by (auto simp: from_segments_def validate_cases)
  have d: ?D
    using sorted_starts_nth [of segs] contiguous_nth [of segs] positive_nth [of segs]
    by (auto simp: from_segments_def validate_cases not_less)
  have f: ?F
    using valid_strict_starts [of segs] by (auto simp: from_segments_ok_iff)
  have e: ?E
  proof (intro impI, elim conjE)
    assume ne: "segs \<noteq> []"
      and ct: "\<forall>i. Suc i < length segs \<longrightarrow> seg_end (segs ! i) = seg_start (segs ! Suc i)"
      and ps: "\<forall>i < length segs. seg_start (segs ! i) < seg_end (segs ! i)"
    have "\<forall>i. Suc i < length segs \<longrightarrow> seg_start (segs ! i) \<le> seg_start (segs ! Suc i)"
      using ct ps by (metis Suc_lessD less_imp_le)
    then show "from_segments segs = Inr segs"
      using ne ct ps
      by (simp add: from_segments_ok_iff validate_ok_iff sorted_starts_nth contiguous_nth positive_nth)
  qed
  have g: ?G
  proof (intro impI, elim conjE exE)
    fix i
    assume ne: "segs \<noteq> []"
      and mono: "\<forall>i. Suc i < length segs \<longrightarrow> seg_start (segs ! i) \<le> seg_start (segs ! Suc i)"
      and i: "Suc i < length segs" and eq: "seg_start (segs ! i) = seg_start (segs ! Suc i)"
    show "from_segments segs = Inl (AssertionError ''Segments must be contiguous'') \<or>
      from_segments segs = Inl (AssertionError ''Start must be before end'')"
    proof (cases "\<forall>i. Suc i < length segs \<longrightarrow> seg_end (segs ! i) = seg_start (segs ! Suc i)")
      case False
      with c ne mono show ?thesis by blast
    next
      case True
      with i eq have "seg_end (segs ! i) \<le> seg_start (segs ! i)" by simp
      moreover from i have "i < length segs" by simp
      ultimately show ?thesis using d ne mono True by blast
    qed
  qed
  from a b c d e f g show ?thesis by blast
qed

text \<open>
  Two segments with equal starts are not in strictly increasing start order, and
  \<^verbatim>\<open>from_segments\<close> rejects them with the contiguity message, not the sorting one.
\<close>

theorem from_segments_equal_starts_counterexample:
  "\<not> sorted_wrt (<) (map seg_start [(0, 1, 1::int), (0, 1, 2)]) \<and>
   from_segments [(0, 1, 1::int), (0, 1, 2)] = Inl (AssertionError ''Segments must be contiguous'') \<and>
   from_segments [(0, 1, 1::int), (0, 1, 2)] \<noteq> Inl (AssertionError ''Segments must be sorted by start time'')"
  by (simp add: from_segments_def validate_def)

theorem from_segments_check_order_witness:
  "from_segments ([] :: int segment list) = Inl (AssertionError ''Timeline must have at least one segment'') \<and>
   from_segments [(2, 4, 2::int), (0, 2, 1)] = Inl (AssertionError ''Segments must be sorted by start time'') \<and>
   from_segments [(0, 2, 1::int), (3, 5, 2)] = Inl (AssertionError ''Segments must be contiguous'') \<and>
   from_segments [(2, 1, 1::int)] = Inl (AssertionError ''Start must be before end'') \<and>
   from_segments [(0, 1, 1::int), (1, 2, 2)] = Inr [(0, 1, 1), (1, 2, 2)] \<and>
   sorted_wrt (<) (map seg_start [(0, 1, 1::int), (1, 2, 2)]) \<and>
   from_segments [(0, 0, 1::int), (0, 1, 2)] = Inl (AssertionError ''Start must be before end'')"
proof -
  let ?s2 = "[(2, 4, 2::int), (0, 2, 1)] :: int segment list"
  let ?s3 = "[(0, 2, 1::int), (3, 5, 2)] :: int segment list"
  let ?s4 = "[(2, 1, 1::int)] :: int segment list"
  let ?s5 = "[(0, 1, 1::int), (1, 2, 2)] :: int segment list"
  let ?s6 = "[(0, 0, 1::int), (0, 1, 2)] :: int segment list"
  have 1: "from_segments ([] :: int segment list) =
      Inl (AssertionError ''Timeline must have at least one segment'')"
    using from_segments_check_order [of "[] :: int segment list"] by simp
  have "\<exists>i. Suc i < length ?s2 \<and> seg_start (?s2 ! Suc i) < seg_start (?s2 ! i)"
    by (rule exI [of _ 0]) simp
  then have 2: "from_segments ?s2 = Inl (AssertionError ''Segments must be sorted by start time'')"
    using from_segments_check_order [of ?s2] by blast
  have "\<forall>i. Suc i < length ?s3 \<longrightarrow> seg_start (?s3 ! i) \<le> seg_start (?s3 ! Suc i)"
    by simp
  moreover have "\<exists>i. Suc i < length ?s3 \<and> seg_end (?s3 ! i) \<noteq> seg_start (?s3 ! Suc i)"
    by (rule exI [of _ 0]) simp
  ultimately have 3: "from_segments ?s3 = Inl (AssertionError ''Segments must be contiguous'')"
    using from_segments_check_order [of ?s3] by blast
  have "\<exists>i < length ?s4. seg_end (?s4 ! i) \<le> seg_start (?s4 ! i)"
    by (rule exI [of _ 0]) simp
  then have 4: "from_segments ?s4 = Inl (AssertionError ''Start must be before end'')"
    using from_segments_check_order [of ?s4] by simp
  have "\<forall>i. Suc i < length ?s5 \<longrightarrow> seg_end (?s5 ! i) = seg_start (?s5 ! Suc i)"
    by simp
  moreover have "\<forall>i < length ?s5. seg_start (?s5 ! i) < seg_end (?s5 ! i)"
    by (simp add: less_Suc_eq)
  ultimately have 5: "from_segments ?s5 = Inr ?s5"
    using from_segments_check_order [of ?s5] by blast
  then have 6: "sorted_wrt (<) (map seg_start ?s5)"
    using from_segments_check_order [of ?s5] by blast
  have "\<forall>i. Suc i < length ?s6 \<longrightarrow> seg_start (?s6 ! i) \<le> seg_start (?s6 ! Suc i)"
    by simp
  moreover have "\<forall>i. Suc i < length ?s6 \<longrightarrow> seg_end (?s6 ! i) = seg_start (?s6 ! Suc i)"
    by simp
  moreover have "\<exists>i < length ?s6. seg_end (?s6 ! i) \<le> seg_start (?s6 ! i)"
    by (rule exI [of _ 0]) simp
  ultimately have 7: "from_segments ?s6 = Inl (AssertionError ''Start must be before end'')"
    using from_segments_check_order [of ?s6] by blast
  from 1 2 3 4 5 6 7 show ?thesis by blast
qed

section \<open>\<^verbatim>\<open>map\<close> keeps the boundaries\<close>

lemma seg_eqI: "seg_start x = a \<Longrightarrow> seg_end x = b \<Longrightarrow> seg_value x = c \<Longrightarrow> x = (a, b, c)"
  by (cases x) simp

lemma validate_map_values:
  "validate (map (\<lambda>row. (seg_start row, seg_end row, f (seg_value row))) df) = validate df"
proof -
  let ?g = "\<lambda>row. (seg_start row, seg_end row, f (seg_value row))"
  have s: "map seg_start (map ?g xs) = map seg_start xs"
    and e: "map seg_end (map ?g xs) = map seg_end xs" for xs
    by simp_all
  have "butlast (map ?g df) = map ?g (butlast df)" "tl (map ?g df) = map ?g (tl df)"
    by (simp_all add: map_butlast map_tl)
  then show ?thesis
    unfolding validate_def by (simp only: s e length_map list_all_iff set_map ball_simps seg_start.simps seg_end.simps)
qed

text \<open>
  Claim C8. On a timeline that passes the validator, \<^verbatim>\<open>map\<close> succeeds; the result has the
  same number of segments, each with the start and end of the original segment at that
  position and with \<open>func\<close> applied to its value, and passes the validator again. The
  result is built by the validating \<^verbatim>\<open>from_dataframe\<close>: on a frame the validator
  rejects, \<^verbatim>\<open>map\<close> fails with that same error.
\<close>

theorem map_timeline_keeps_boundaries:
  "(validate df = Inr () \<longrightarrow>
      (\<exists>r. map_timeline func df = Inr r \<and> validate r = Inr () \<and> length r = length df \<and>
         (\<forall>i < length df.
            seg_start (r ! i) = seg_start (df ! i) \<and> seg_end (r ! i) = seg_end (df ! i) \<and>
            seg_value (r ! i) = func (seg_value (df ! i))))) \<and>
   (\<forall>e. validate df = Inl e \<longrightarrow> map_timeline func df = Inl e)"
  by (simp add: map_timeline_def from_dataframe_def validate_map_values)

theorem map_timeline_keeps_boundaries_witness:
  "map_timeline (\<lambda>x. x * 10) [(0, 1, 1::int), (1, 2, 2), (2, 3, 3)] =
     Inr [(0, 1, 10), (1, 2, 20), (2, 3, 30)] \<and>
   map_timeline (\<lambda>x. x * 10) [(0, 2, 1::int), (3, 5, 2)] =
     Inl (AssertionError ''Segments must be contiguous'')"
proof -
  let ?df = "[(0, 1, 1::int), (1, 2, 2), (2, 3, 3)] :: int timeline"
  let ?bad = "[(0, 2, 1::int), (3, 5, 2)] :: int timeline"
  have v: "validate ?df = Inr ()" by (simp add: validate_def)
  from map_timeline_keeps_boundaries [of ?df "\<lambda>x. x * 10"] v
  obtain r where ok: "map_timeline (\<lambda>x. x * 10) ?df = Inr r"
    and len: "length r = length ?df"
    and pt: "\<forall>i < length ?df. seg_start (r ! i) = seg_start (?df ! i) \<and>
       seg_end (r ! i) = seg_end (?df ! i) \<and> seg_value (r ! i) = seg_value (?df ! i) * 10"
    by blast
  from pt [rule_format, of 0] pt [rule_format, of 1] pt [rule_format, of 2]
  have "r ! 0 = (0, 1, 10)" "r ! Suc 0 = (1, 2, 20)" "r ! Suc (Suc 0) = (2, 3, 30)"
    by (simp_all add: seg_eqI numeral_2_eq_2)
  with len have "r = [(0, 1, 10), (1, 2, 20), (2, 3, 30)]"
    by (simp add: list_eq_iff_nth_eq less_Suc_eq numeral_3_eq_3 nth_Cons')
  moreover have "validate ?bad = Inl (AssertionError ''Segments must be contiguous'')"
    by (simp add: validate_def)
  then have "map_timeline (\<lambda>x. x * 10) ?bad = Inl (AssertionError ''Segments must be contiguous'')"
    using map_timeline_keeps_boundaries [of ?bad "\<lambda>x. x * 10"] by blast
  ultimately show ?thesis using ok by simp
qed

section \<open>Order of the boundaries of a validated timeline\<close>

lemma valid_nth_contiguous:
  "validate df = Inr () \<Longrightarrow> Suc i < length df \<Longrightarrow> seg_end (df ! i) = seg_start (df ! Suc i)"
  by (simp add: validate_ok_iff contiguous_nth)

lemma valid_nth_positive:
  "validate df = Inr () \<Longrightarrow> i < length df \<Longrightarrow> seg_start (df ! i) < seg_end (df ! i)"
  by (simp add: validate_ok_iff positive_nth)

lemma valid_nth_start_mono:
  assumes "validate df = Inr ()" "i \<le> j" "j < length df"
  shows "seg_start (df ! i) \<le> seg_start (df ! j)"
proof -
  from assms(1) have "sorted (map seg_start df)" by (simp add: validate_ok_iff)
  from sorted_nth_mono [OF this, of i j] assms(2,3) show ?thesis by simp
qed

lemma valid_nth_end_le_start:
  assumes "validate df = Inr ()" "i < j" "j < length df"
  shows "seg_end (df ! i) \<le> seg_start (df ! j)"
proof -
  from assms have "seg_end (df ! i) = seg_start (df ! Suc i)"
    by (simp add: valid_nth_contiguous)
  also from assms have "\<dots> \<le> seg_start (df ! j)"
    by (simp add: valid_nth_start_mono)
  finally show ?thesis .
qed

lemma valid_nth_end_mono:
  assumes "validate df = Inr ()" "i \<le> j" "j < length df"
  shows "seg_end (df ! i) \<le> seg_end (df ! j)"
proof (cases "i = j")
  case False
  with assms have "seg_end (df ! i) \<le> seg_start (df ! j)"
    by (simp add: valid_nth_end_le_start)
  also from assms have "\<dots> < seg_end (df ! j)" by (simp add: valid_nth_positive)
  finally show ?thesis by simp
qed simp

section \<open>The selection of \<^verbatim>\<open>slice\<close>\<close>

lemma slice_empty_iff:
  "slice df lo hi = [] \<longleftrightarrow> filter (\<lambda>s. seg_end s > lo \<and> seg_start s < hi) df = []"
  by (simp add: slice_def Let_def)

lemma slice_length:
  "length (slice df lo hi) = length (filter (\<lambda>s. seg_end s > lo \<and> seg_start s < hi) df)"
  by (simp add: slice_def Let_def)

lemma slice_nth:
  assumes "sel = filter (\<lambda>s. seg_end s > lo \<and> seg_start s < hi) df" "i < length sel"
  shows "seg_value (slice df lo hi ! i) = seg_value (sel ! i)"
    and "seg_start (slice df lo hi ! i) =
           (if i = 0 \<and> seg_start (sel ! i) < lo then lo else seg_start (sel ! i))"
    and "seg_end (slice df lo hi ! i) =
           (if i = length sel - 1 \<and> seg_end (sel ! i) > hi then hi else seg_end (sel ! i))"
  using assms by (auto simp: slice_def Let_def nth_list_update)

lemma single_selected:
  assumes v: "validate df = Inr ()" and "hi \<le> lo" and i: "i < length df"
    and "seg_start (df ! i) < hi" "lo < seg_end (df ! i)"
  shows "filter (\<lambda>s. seg_end s > lo \<and> seg_start s < hi) df = [df ! i]"
proof -
  let ?P = "\<lambda>s. seg_end s > lo \<and> seg_start s < hi"
  have before: "\<not> ?P s" if "s \<in> set (take i df)" for s
  proof -
    from that i obtain k where "k < i" "s = df ! k"
      by (auto simp: in_set_conv_nth)
    with v i have "seg_end s \<le> seg_start (df ! i)" by (simp add: valid_nth_end_le_start)
    with assms show ?thesis by simp
  qed
  have after: "\<not> ?P s" if "s \<in> set (drop (Suc i) df)" for s
  proof -
    from that obtain k where k: "k < length df - Suc i" "s = df ! (Suc i + k)"
      by (auto simp: in_set_conv_nth)
    with v have "seg_end (df ! i) \<le> seg_start s"
      by (simp add: valid_nth_end_le_start)
    with assms show ?thesis by simp
  qed
  have "df = take i df @ df ! i # drop (Suc i) df"
    using i by (rule id_take_nth_drop)
  then have "filter ?P df = filter ?P (take i df) @ filter ?P [df ! i] @ filter ?P (drop (Suc i) df)"
    by (metis append_Cons append_Nil filter_append)
  also have "filter ?P (take i df) = []" using before by (simp add: filter_empty_conv)
  also have "filter ?P (drop (Suc i) df) = []" using after by (simp add: filter_empty_conv)
  finally show ?thesis using assms by simp
qed

lemma slice_inverted:
  assumes "validate df = Inr ()" "hi \<le> lo" "s \<in> set df" "seg_start s < hi" "lo < seg_end s"
  shows "slice df lo hi = [(lo, hi, seg_value s)]"
proof -
  from assms(3) obtain i where "i < length df" "s = df ! i" by (auto simp: in_set_conv_nth)
  with assms have "filter (\<lambda>s. seg_end s > lo \<and> seg_start s < hi) df = [s]"
    by (simp add: single_selected)
  with assms show ?thesis by (simp add: slice_def)
qed

section \<open>\<^verbatim>\<open>slice\<close> with inverted bounds\<close>

text \<open>
  Claim C3, as the code has it. With \<open>lo > hi\<close> the overlap filter
  \<open>end > lo \<and> start < hi\<close> still selects a segment that contains both bounds strictly.
  So \<^verbatim>\<open>slice(lo, hi)\<close> returns zero segments exactly when no segment has
  \<open>start < hi\<close> and \<open>lo < end\<close>; on a validated timeline with such a segment it returns
  the single segment \<open>(lo, hi, value)\<close> of that segment, clipped on both sides.
\<close>

theorem slice_inverted_bounds:
  "hi < lo \<Longrightarrow>
     (slice df lo hi = [] \<longleftrightarrow> \<not> (\<exists>s \<in> set df. seg_start s < hi \<and> lo < seg_end s)) \<and>
     (validate df = Inr () \<longrightarrow>
        (\<forall>s \<in> set df. seg_start s < hi \<and> lo < seg_end s \<longrightarrow>
           slice df lo hi = [(lo, hi, seg_value s)]))"
  by (auto simp: slice_empty_iff filter_empty_conv slice_inverted)

text \<open>
  The timeline with the one segment \<open>[0, 10)\<close> sliced with \<open>lo = 7 > hi = 3\<close> is not
  empty.
\<close>

theorem slice_inverted_bounds_counterexample:
  "validate [(0, 10, 1::int)] = Inr () \<and> (3::int) < 7 \<and>
   slice [(0, 10, 1::int)] 7 3 = [(7, 3, 1)] \<and> slice [(0, 10, 1::int)] 7 3 \<noteq> []"
  by (simp add: slice_def validate_def)

theorem slice_inverted_bounds_witness:
  "validate [(0, 10, 1::int), (10, 20, 2)] = Inr () \<and>
   slice [(0, 10, 1::int), (10, 20, 2)] 7 3 = [(7, 3, 1)] \<and>
   slice [(0, 10, 1::int), (10, 20, 2)] 12 8 = []"
proof -
  let ?df = "[(0, 10, 1::int), (10, 20, 2)] :: int timeline"
  have v: "validate ?df = Inr ()" by (simp add: validate_def)
  have "(0, 10, 1) \<in> set ?df" "seg_start (0, 10, 1::int) < 3" "7 < seg_end (0, 10, 1::int)"
    by simp_all
  moreover have "(3::int) < 7" by simp
  ultimately have "slice ?df 7 3 = [(7, 3, seg_value (0, 10, 1::int))]"
    using v slice_inverted_bounds [of 3 7 ?df] by blast
  moreover have "\<not> (\<exists>s \<in> set ?df. seg_start s < 8 \<and> 12 < seg_end s)" by simp
  with slice_inverted_bounds [of 8 12 ?df] have "slice ?df 12 8 = []" by simp
  ultimately show ?thesis using v by simp
qed

section \<open>\<^verbatim>\<open>slice\<close> at a single instant\<close>

text \<open>
  Claim C10. On a validated timeline, for an instant \<open>t\<close> strictly inside a segment,
  \<^verbatim>\<open>slice(t, t)\<close> returns (it has no failing path) exactly the one zero-width segment
  \<open>(t, t, value)\<close>, whose start equals its end; the validating constructor rejects that
  list with the start-before-end message.
\<close>

theorem slice_instant_zero_width:
  "validate df = Inr () \<Longrightarrow> s \<in> set df \<Longrightarrow> seg_start s < t \<Longrightarrow> t < seg_end s \<Longrightarrow>
     slice df t t = [(t, t, seg_value s)] \<and>
     length (slice df t t) = 1 \<and>
     seg_start (slice df t t ! 0) = seg_end (slice df t t ! 0) \<and>
     from_segments (slice df t t) = Inl (AssertionError ''Start must be before end'')"
  by (simp add: slice_inverted from_segments_def validate_def)

theorem slice_instant_zero_width_witness:
  "validate [(0, 10, 1::int), (10, 20, 2)] = Inr () \<and>
   slice [(0, 10, 1::int), (10, 20, 2)] 15 15 = [(15, 15, 2)] \<and>
   from_segments (slice [(0, 10, 1::int), (10, 20, 2)] 15 15) =
     Inl (AssertionError ''Start must be before end'')"
proof -
  let ?df = "[(0, 10, 1::int), (10, 20, 2)] :: int timeline"
  have v: "validate ?df = Inr ()" by (simp add: validate_def)
  have "(10, 20, 2) \<in> set ?df" "seg_start (10, 20, 2::int) < 15" "15 < seg_end (10, 20, 2::int)"
    by simp_all
  from slice_instant_zero_width [OF v this] v show ?thesis by auto
qed

section \<open>\<^verbatim>\<open>slice\<close> outside the span\<close>

lemma outside_selects_nothing:
  assumes "validate df = Inr () \<or> length df = 1"
    and "tl_start df = Inr a" "tl_end df = Inr b" "hi \<le> a \<or> b \<le> lo"
  shows "filter (\<lambda>s. seg_end s > lo \<and> seg_start s < hi) df = []"
proof -
  from assms(2) have ne: "df \<noteq> []" by (auto simp: tl_start_def)
  with assms(2,3) have a: "a = seg_start (df ! 0)" and b: "b = seg_end (df ! (length df - 1))"
    by (auto simp: tl_start_def tl_end_def last_conv_nth nth_Cons' split: list.splits)
  have "\<not> (seg_end s > lo \<and> seg_start s < hi)" if "s \<in> set df" for s
  proof -
    from that obtain i where i: "i < length df" "s = df ! i" by (auto simp: in_set_conv_nth)
    from assms(1) have "a \<le> seg_start s \<and> seg_end s \<le> b"
    proof
      assume "validate df = Inr ()"
      with i a b show ?thesis
        by (simp add: valid_nth_start_mono valid_nth_end_mono)
    next
      assume "length df = 1"
      with i a b show ?thesis by simp
    qed
    with assms(4) show ?thesis by auto
  qed
  then show ?thesis by (simp add: filter_empty_conv)
qed

text \<open>
  Claim C5. For a timeline that passes the validator (or has a single segment, as a
  slice may leave it) and bounds \<open>lo \<le> hi\<close> that lie outside its total span (\<open>hi\<close> at or
  before the total start, or \<open>lo\<close> at or after the total end), the filter selects
  nothing and \<^verbatim>\<open>slice\<close> returns the timeline without segments: it has no failing path
  and does not validate. The validating constructor rejects that same list with the
  at-least-one-segment message.
\<close>

theorem slice_outside_span_empty:
  "lo \<le> hi \<Longrightarrow> validate df = Inr () \<or> length df = 1 \<Longrightarrow>
   tl_start df = Inr a \<Longrightarrow> tl_end df = Inr b \<Longrightarrow> hi \<le> a \<or> b \<le> lo \<Longrightarrow>
     filter (\<lambda>s. seg_end s > lo \<and> seg_start s < hi) df = [] \<and>
     slice df lo hi = [] \<and> length (slice df lo hi) = 0 \<and>
     from_segments (slice df lo hi) =
       Inl (AssertionError ''Timeline must have at least one segment'')"
  using outside_selects_nothing [of df a b hi lo]
  by (simp add: slice_empty_iff from_segments_def validate_def)

theorem slice_outside_span_empty_witness:
  "validate [(0, 10, 1::int), (10, 20, 2)] = Inr () \<and>
   tl_start [(0, 10, 1::int), (10, 20, 2)] = Inr 0 \<and>
   tl_end [(0, 10, 1::int), (10, 20, 2)] = Inr 20 \<and>
   slice [(0, 10, 1::int), (10, 20, 2)] 20 30 = [] \<and>
   from_segments (slice [(0, 10, 1::int), (10, 20, 2)] 20 30) =
     Inl (AssertionError ''Timeline must have at least one segment'')"
proof -
  let ?df = "[(0, 10, 1::int), (10, 20, 2)] :: int timeline"
  have v: "validate ?df = Inr () \<or> length ?df = 1" by (simp add: validate_def)
  have s: "tl_start ?df = Inr 0" and e: "tl_end ?df = Inr 20"
    by (simp_all add: tl_start_def tl_end_def)
  have "(20::int) \<le> 30" "(30::int) \<le> 0 \<or> (20::int) \<le> 20" by simp_all
  from slice_outside_span_empty [OF this(1) v s e this(2)] s e show ?thesis
    by (auto simp: validate_def)
qed

section \<open>\<^verbatim>\<open>slice\<close>: selection and clipping\<close>

lemma tl_start_nth: "xs \<noteq> [] \<Longrightarrow> tl_start xs = Inr (seg_start (xs ! 0))"
  by (cases xs) (simp_all add: tl_start_def)

lemma last_filter_selected:
  assumes "xs \<noteq> []" "P (last xs)"
  shows "last (filter P xs) = last xs"
proof -
  from assms(1) have "filter P xs = filter P (butlast xs @ [last xs])" by simp
  also from assms(2) have "\<dots> = filter P (butlast xs) @ [last xs]" by simp
  finally show ?thesis by simp
qed

lemma slice_keeps_total_start:
  assumes df: "validate df = Inr () \<or> length df = 1"
    and a: "tl_start df = Inr a" "lo \<le> a" and ne: "slice df lo hi \<noteq> []"
  shows "tl_start (slice df lo hi) = Inr a"
proof -
  let ?P = "\<lambda>s. seg_end s > lo \<and> seg_start s < hi"
  from a(1) obtain s0 rest where c: "df = s0 # rest" and a0: "a = seg_start s0"
    by (auto simp: tl_start_def split: list.splits)
  from ne obtain s where s: "s \<in> set df" "?P s"
    by (auto simp: slice_empty_iff filter_empty_conv)
  then obtain i where i: "i < length df" "s = df ! i" by (auto simp: in_set_conv_nth)
  from df have "lo < seg_end s0 \<and> seg_start s0 \<le> seg_start s"
  proof
    assume v: "validate df = Inr ()"
    from valid_nth_positive [OF v, of 0] valid_nth_start_mono [OF v, of 0 i] i c a a0
    show ?thesis by simp
  next
    assume "length df = 1"
    with c s show ?thesis by simp
  qed
  with s have "?P s0" by simp
  with c have sel: "filter ?P df = s0 # filter ?P rest" by simp
  then have "0 < length (filter ?P df)" by simp
  from slice_nth(2) [OF refl this] sel a a0 have "seg_start (slice df lo hi ! 0) = a" by simp
  with ne show ?thesis by (simp add: tl_start_nth)
qed

lemma slice_keeps_total_end:
  assumes df: "validate df = Inr () \<or> length df = 1"
    and b: "tl_end df = Inr b" "b \<le> hi" and ne: "slice df lo hi \<noteq> []"
  shows "tl_end (slice df lo hi) = Inr b"
proof -
  let ?P = "\<lambda>s. seg_end s > lo \<and> seg_start s < hi"
  let ?sel = "filter ?P df"
  from b(1) have dne: "df \<noteq> []" and b0: "b = seg_end (last df)"
    by (auto simp: tl_end_def split: if_splits)
  from ne obtain s where s: "s \<in> set df" "?P s"
    by (auto simp: slice_empty_iff filter_empty_conv)
  then obtain i where i: "i < length df" "s = df ! i" by (auto simp: in_set_conv_nth)
  from dne have l: "last df = df ! (length df - 1)" by (simp add: last_conv_nth)
  from df have "seg_start (last df) < hi \<and> seg_end s \<le> seg_end (last df)"
  proof
    assume v: "validate df = Inr ()"
    from valid_nth_positive [OF v, of "length df - 1"]
      valid_nth_end_mono [OF v, of i "length df - 1"] i l b b0 dne
    show ?thesis by simp
  next
    assume "length df = 1"
    with i l s show ?thesis by simp
  qed
  with s have "?P (last df)" by simp
  with dne have sl: "last ?sel = last df" and sne: "?sel \<noteq> []"
    by (auto simp: last_filter_selected filter_empty_conv)
  let ?n = "length ?sel - 1"
  from sne have n: "?n < length ?sel" by simp
  from sne sl have "seg_end (?sel ! ?n) = b" by (simp add: last_conv_nth b0)
  with slice_nth(3) [OF refl n, of ] b have "seg_end (slice df lo hi ! ?n) = b" by simp
  moreover have "last (slice df lo hi) = slice df lo hi ! ?n"
    using ne by (simp add: last_conv_nth slice_length)
  ultimately show ?thesis using ne by (simp add: tl_end_def)
qed

text \<open>
  Claim C4. For bounds \<open>lo \<le> hi\<close>, \<^verbatim>\<open>slice(lo, hi)\<close> has one segment for each segment of
  the timeline with \<open>end > lo\<close> and \<open>start < hi\<close>, in the same order and with the same
  value. The start of the first of them is \<open>lo\<close> if it was less than \<open>lo\<close>, and the end of
  the last of them is \<open>hi\<close> if it was greater than \<open>hi\<close>; every other start and end is
  the original one. On a timeline that passes the validator (or has a single segment, as
  a slice may leave it), if the result is not empty then a bound \<open>lo\<close> at or before the
  total start leaves the total start unchanged, and a bound \<open>hi\<close> at or after the total
  end leaves the total end unchanged.
\<close>

theorem slice_selects_and_clips:
  "lo \<le> hi \<Longrightarrow> sel = filter (\<lambda>s. seg_end s > lo \<and> seg_start s < hi) df \<Longrightarrow>
     length (slice df lo hi) = length sel \<and>
     (\<forall>i < length sel.
        seg_value (slice df lo hi ! i) = seg_value (sel ! i) \<and>
        seg_start (slice df lo hi ! i) =
          (if i = 0 \<and> seg_start (sel ! i) < lo then lo else seg_start (sel ! i)) \<and>
        seg_end (slice df lo hi ! i) =
          (if i = length sel - 1 \<and> seg_end (sel ! i) > hi then hi else seg_end (sel ! i))) \<and>
     ((validate df = Inr () \<or> length df = 1) \<and> slice df lo hi \<noteq> [] \<longrightarrow>
        (\<forall>a. tl_start df = Inr a \<and> lo \<le> a \<longrightarrow> tl_start (slice df lo hi) = Inr a) \<and>
        (\<forall>b. tl_end df = Inr b \<and> b \<le> hi \<longrightarrow> tl_end (slice df lo hi) = Inr b))"
  using slice_nth [of sel lo hi df]
  by (simp add: slice_length slice_keeps_total_start slice_keeps_total_end)

theorem slice_selects_and_clips_witness:
  "validate [(30, 60, 1::int), (60, 120, 2), (120, 150, 3)] = Inr () \<and>
   slice [(30, 60, 1::int), (60, 120, 2), (120, 150, 3)] 15 90 = [(30, 60, 1), (60, 90, 2)] \<and>
   tl_start (slice [(30, 60, 1::int), (60, 120, 2), (120, 150, 3)] 15 90) = Inr 30"
proof -
  let ?df = "[(30, 60, 1::int), (60, 120, 2), (120, 150, 3)] :: int timeline"
  let ?sel = "[(30, 60, 1::int), (60, 120, 2)] :: int timeline"
  let ?r = "slice ?df 15 90"
  have le: "(15::int) \<le> 90" by simp
  have sel: "?sel = filter (\<lambda>s. seg_end s > 15 \<and> seg_start s < 90) ?df" by simp
  have v: "validate ?df = Inr ()" by (simp add: validate_def)
  have a: "tl_start ?df = Inr 30" by (simp add: tl_start_def)
  note t = slice_selects_and_clips [OF le sel]
  from t have len: "length ?r = 2" by simp
  from t have pt: "\<forall>i < length ?sel.
        seg_value (?r ! i) = seg_value (?sel ! i) \<and>
        seg_start (?r ! i) =
          (if i = 0 \<and> seg_start (?sel ! i) < 15 then 15 else seg_start (?sel ! i)) \<and>
        seg_end (?r ! i) =
          (if i = length ?sel - 1 \<and> seg_end (?sel ! i) > 90 then 90 else seg_end (?sel ! i))"
    by blast
  from pt [rule_format, of 0] pt [rule_format, of "Suc 0"]
  have "?r ! 0 = (30, 60, 1)" "?r ! Suc 0 = (60, 90, 2)"
    by (simp_all add: seg_eqI)
  with len have r: "?r = [(30, 60, 1), (60, 90, 2)]"
    by (simp add: list_eq_iff_nth_eq less_Suc_eq numeral_2_eq_2)
  then have "?r \<noteq> []" by simp
  with t v a have "tl_start ?r = Inr 30" by simp
  with v r show ?thesis by simp
qed

section \<open>Validity by recursion\<close>

lemma validate_chain: "validate df = Inr () \<longleftrightarrow> df \<noteq> [] \<and> chain df"
proof (induction df rule: chain.induct)
  case 1
  show ?case by (simp add: validate_ok_iff)
next
  case (2 s)
  show ?case by (simp add: validate_ok_iff)
next
  case (3 s s' rest)
  have "validate (s # s' # rest) = Inr () \<longleftrightarrow>
      seg_start s < seg_end s \<and> seg_end s = seg_start s' \<and> validate (s' # rest) = Inr ()"
    by (auto simp: validate_ok_iff)
  with 3 show ?case by simp
qed




lemma segment_eta: "(seg_start s, seg_end s, seg_value s) = s"
  by (cases s) simp




section \<open>The merge loop computes the runs\<close>



section \<open>What the runs are\<close>





section \<open>\<^verbatim>\<open>merge_adjacent\<close>\<close>












section \<open>The gap-filling loop\<close>

lemma fill_loop_snoc:
  "fill_loop (acc @ [p]) gap (Suc n) rest = acc @ gaps_between gap (p # rest)"
proof (induction rest arbitrary: acc p n)
  case Nil
  show ?case by simp
next
  case (Cons seg rest)
  let ?g = "if seg_end p < seg_start seg then [(seg_end p, seg_start seg, gap)] else []"
  have "fill_loop (acc @ [p]) gap (Suc n) (seg # rest) =
      fill_loop ((acc @ [p] @ ?g) @ [seg]) gap (Suc (Suc n)) rest"
    by (simp add: segment_eta)
  also have "\<dots> = (acc @ [p] @ ?g) @ gaps_between gap (seg # rest)"
    by (rule Cons.IH)
  also have "\<dots> = acc @ gaps_between gap (p # seg # rest)"
    by simp
  finally show ?case .
qed

lemma fill_loop_is_gaps: "fill_loop [] gap 0 segs = gaps_between gap segs"
proof (cases segs)
  case Nil
  then show ?thesis by simp
next
  case (Cons s rest)
  have "fill_loop [] gap 0 (s # rest) = fill_loop ([] @ [s]) gap (Suc 0) rest"
    by (simp add: segment_eta)
  also have "\<dots> = [] @ gaps_between gap (s # rest)"
    by (rule fill_loop_snoc)
  finally show ?thesis using Cons by simp
qed

lemma gaps_between_Cons: "\<exists>rest'. gaps_between gap (s # rest) = s # rest'"
  by (cases rest) simp_all

lemma gaps_between_not_empty: "segs \<noteq> [] \<Longrightarrow> gaps_between gap segs \<noteq> []"
  by (induction gap segs rule: gaps_between.induct) simp_all

lemma contig_iff:
  "map seg_end (butlast df) = map seg_start (tl df) \<longleftrightarrow> contig df"
  by (induction df rule: contig.induct) auto

lemma overlapping_nth:
  "overlapping df \<longleftrightarrow> (\<exists>i. Suc i < length df \<and> seg_start (df ! Suc i) < seg_end (df ! i))"
proof (induction df rule: overlapping.induct)
  case (1 s s' rest)
  have "(\<exists>i. Suc i < length (s # s' # rest) \<and>
          seg_start ((s # s' # rest) ! Suc i) < seg_end ((s # s' # rest) ! i)) \<longleftrightarrow>
        seg_start s' < seg_end s \<or>
        (\<exists>i. Suc i < length (s' # rest) \<and>
          seg_start ((s' # rest) ! Suc i) < seg_end ((s' # rest) ! i))"
    (is "?L \<longleftrightarrow> ?A \<or> ?R")
  proof
    assume ?L
    then obtain i where i: "Suc i < length (s # s' # rest)"
      "seg_start ((s # s' # rest) ! Suc i) < seg_end ((s # s' # rest) ! i)" by blast
    show "?A \<or> ?R"
    proof (cases i)
      case 0
      with i show ?thesis by simp
    next
      case (Suc j)
      with i have "Suc j < length (s' # rest) \<and>
          seg_start ((s' # rest) ! Suc j) < seg_end ((s' # rest) ! j)" by simp
      then show ?thesis by blast
    qed
  next
    assume "?A \<or> ?R"
    then show ?L
    proof
      assume ?A
      then have "Suc 0 < length (s # s' # rest) \<and>
          seg_start ((s # s' # rest) ! Suc 0) < seg_end ((s # s' # rest) ! 0)" by simp
      then show ?L by blast
    next
      assume ?R
      then obtain j where "Suc j < length (s' # rest)"
        "seg_start ((s' # rest) ! Suc j) < seg_end ((s' # rest) ! j)" by blast
      then have "Suc (Suc j) < length (s # s' # rest) \<and>
          seg_start ((s # s' # rest) ! Suc (Suc j)) < seg_end ((s # s' # rest) ! Suc j)" by simp
      then show ?L by blast
    qed
  qed
  with 1 show ?case by simp
qed simp_all

lemma overlap_not_contig: "overlapping segs \<Longrightarrow> \<not> contig (gaps_between gap segs)"
proof (induction segs rule: overlapping.induct)
  case (1 s s' rest)
  obtain rest' where g: "gaps_between gap (s' # rest) = s' # rest'"
    using gaps_between_Cons [of gap s' rest] by blast
  show ?case
  proof (cases "seg_start s' < seg_end s")
    case True
    with g show ?thesis by simp
  next
    case False
    with 1 have "\<not> contig (gaps_between gap (s' # rest))" by simp
    with g show ?thesis by simp
  qed
qed simp_all

lemma gaps_sorted:
  "sorted (map seg_start segs) \<Longrightarrow> \<forall>s \<in> set segs. seg_start s \<le> seg_end s \<Longrightarrow>
     sorted (map seg_start (gaps_between gap segs))"
proof (induction gap segs rule: gaps_between.induct)
  case (1 gap prev nxt rest)
  obtain rest' where g: "gaps_between gap (nxt # rest) = nxt # rest'"
    using gaps_between_Cons [of gap nxt rest] by blast
  from 1 have "sorted (map seg_start (nxt # rest'))" by (simp add: g)
  moreover from "1.prems" have "seg_start prev \<le> seg_end prev" "seg_start prev \<le> seg_start nxt"
    by simp_all
  ultimately show ?case by (auto simp: g)
qed simp_all

lemma gaps_nothing_inserted:
  "\<forall>i. Suc i < length segs \<longrightarrow> \<not> seg_end (segs ! i) < seg_start (segs ! Suc i) \<Longrightarrow>
     gaps_between gap segs = segs"
proof (induction gap segs rule: gaps_between.induct)
  case (1 gap prev nxt rest)
  from "1.prems" [rule_format, of 0] have a: "\<not> seg_end prev < seg_start nxt" by simp
  have "\<forall>i. Suc i < length (nxt # rest) \<longrightarrow>
      \<not> seg_end ((nxt # rest) ! i) < seg_start ((nxt # rest) ! Suc i)"
  proof (intro allI impI)
    fix i assume "Suc i < length (nxt # rest)"
    with "1.prems" [rule_format, of "Suc i"]
    show "\<not> seg_end ((nxt # rest) ! i) < seg_start ((nxt # rest) ! Suc i)" by simp
  qed
  with 1 a show ?case by simp
qed simp_all

section \<open>\<^verbatim>\<open>from_segments_with_gaps\<close>\<close>

lemma overlap_fails_contiguity:
  assumes "segs \<noteq> []" "sorted (map seg_start segs)" "\<forall>s \<in> set segs. seg_start s \<le> seg_end s"
    and "overlapping segs"
  shows "from_segments (gaps_between gap segs) = Inl (AssertionError ''Segments must be contiguous'')"
proof -
  let ?f = "gaps_between gap segs"
  from assms(1) have "?f \<noteq> []" by (rule gaps_between_not_empty)
  moreover from assms(2,3) have "sorted (map seg_start ?f)" by (rule gaps_sorted)
  moreover from assms(4) have "map seg_end (butlast ?f) \<noteq> map seg_start (tl ?f)"
    by (simp add: contig_iff overlap_not_contig)
  ultimately show ?thesis by (simp add: from_segments_def validate_cases)
qed

text \<open>
  Claim C9, as the code has it. For a non-empty input, \<^verbatim>\<open>from_segments_with_gaps\<close> sorts
  the segments by start (keeping all of them), puts the segment
  \<open>(prev.end, next.start, gap_value)\<close> between every two neighbours of the sorted list
  with \<open>prev.end < next.start\<close> and nothing between the others, and hands the filled list
  to \<^verbatim>\<open>from_segments\<close>. When two neighbours of the sorted list overlap
  (\<open>next.start < prev.end\<close>) and every input segment has \<open>start \<le> end\<close>, the result is the
  contiguity failure of the validator.
\<close>

theorem from_segments_with_gaps_fills:
  "segments \<noteq> [] \<Longrightarrow> srt = sort_key seg_start segments \<Longrightarrow>
     sorted (map seg_start srt) \<and> mset srt = mset segments \<and>
     from_segments_with_gaps segments gap = from_segments (gaps_between gap srt) \<and>
     ((\<forall>i. Suc i < length srt \<longrightarrow> \<not> seg_end (srt ! i) < seg_start (srt ! Suc i)) \<longrightarrow>
        gaps_between gap srt = srt) \<and>
     ((\<forall>s \<in> set segments. seg_start s \<le> seg_end s) \<and>
      (\<exists>i. Suc i < length srt \<and> seg_start (srt ! Suc i) < seg_end (srt ! i)) \<longrightarrow>
        from_segments_with_gaps segments gap = Inl (AssertionError ''Segments must be contiguous''))"
proof -
  assume ne: "segments \<noteq> []" and srt: "srt = sort_key seg_start segments"
  from srt have s: "sorted (map seg_start srt)" and m: "mset srt = mset segments"
    by simp_all
  from m have st: "set srt = set segments" by (rule mset_eq_setD)
  from ne m have sne: "srt \<noteq> []" by auto
  from ne srt have f: "from_segments_with_gaps segments gap = from_segments (gaps_between gap srt)"
    by (simp add: from_segments_with_gaps_def fill_loop_is_gaps)
  have n: "(\<forall>i. Suc i < length srt \<longrightarrow> \<not> seg_end (srt ! i) < seg_start (srt ! Suc i)) \<longrightarrow>
        gaps_between gap srt = srt"
    using gaps_nothing_inserted [of srt gap] by blast
  have o: "(\<forall>s \<in> set segments. seg_start s \<le> seg_end s) \<and>
      (\<exists>i. Suc i < length srt \<and> seg_start (srt ! Suc i) < seg_end (srt ! i)) \<longrightarrow>
        from_segments_with_gaps segments gap = Inl (AssertionError ''Segments must be contiguous'')"
    using overlap_fails_contiguity [OF sne s, of gap] st f
    by (simp add: overlapping_nth)
  from s m f n o show ?thesis by blast
qed

text \<open>
  The input \<open>[5, 1), [6, 8), [7, 9)\<close> is sorted by start and its last two segments overlap;
  the gap \<open>(1, 6)\<close> inserted after the first segment starts before it, and the result is
  the sorted-by-start-time failure, not the contiguity failure.
\<close>

theorem from_segments_with_gaps_overlap_counterexample:
  "sort_key seg_start [(5, 1, 1::int), (6, 8, 2), (7, 9, 3)] = [(5, 1, 1), (6, 8, 2), (7, 9, 3)] \<and>
   seg_start (7, 9, 3::int) < seg_end (6, 8, 2::int) \<and>
   from_segments_with_gaps [(5, 1, 1::int), (6, 8, 2), (7, 9, 3)] 0 =
     Inl (AssertionError ''Segments must be sorted by start time'') \<and>
   from_segments_with_gaps [(5, 1, 1::int), (6, 8, 2), (7, 9, 3)] 0 \<noteq>
     Inl (AssertionError ''Segments must be contiguous'')"
  by (simp add: from_segments_with_gaps_def from_segments_def validate_def)

theorem from_segments_with_gaps_fills_witness:
  "from_segments_with_gaps [(5, 6, 1::int), (0, 3, 2)] 0 = Inr [(0, 3, 2), (3, 5, 0), (5, 6, 1)] \<and>
   from_segments_with_gaps [(2, 5, 2::int), (0, 3, 1)] 0 =
     Inl (AssertionError ''Segments must be contiguous'')"
proof -
  let ?a = "[(5, 6, 1::int), (0, 3, 2)] :: int segment list"
  let ?sa = "[(0, 3, 2::int), (5, 6, 1)] :: int segment list"
  let ?b = "[(2, 5, 2::int), (0, 3, 1)] :: int segment list"
  let ?sb = "[(0, 3, 1::int), (2, 5, 2)] :: int segment list"
  have a: "?a \<noteq> []" "?sa = sort_key seg_start ?a" by simp_all
  have b: "?b \<noteq> []" "?sb = sort_key seg_start ?b" by simp_all
  from from_segments_with_gaps_fills [OF a, of 0]
  have "from_segments_with_gaps ?a 0 = from_segments (gaps_between 0 ?sa)" by blast
  then have 1: "from_segments_with_gaps ?a 0 = Inr [(0, 3, 2), (3, 5, 0), (5, 6, 1)]"
    by (simp add: from_segments_def validate_def)
  have "\<forall>s \<in> set ?b. seg_start s \<le> seg_end s" by simp
  moreover have "\<exists>i. Suc i < length ?sb \<and> seg_start (?sb ! Suc i) < seg_end (?sb ! i)"
    by (rule exI [of _ 0]) simp
  ultimately have 2: "from_segments_with_gaps ?b 0 = Inl (AssertionError ''Segments must be contiguous'')"
    using from_segments_with_gaps_fills [OF b, of 0] by blast
  from 1 2 show ?thesis by blast
qed

section \<open>The cursor of the sweep\<close>

lemma advance_cursor:
  "idx < length df \<Longrightarrow> seg_start (df ! idx) \<le> t \<Longrightarrow>
     advance df idx t < length df \<and> seg_start (df ! advance df idx t) \<le> t \<and>
     (Suc (advance df idx t) < length df \<longrightarrow> t < seg_start (df ! Suc (advance df idx t)))"
proof (induction df idx t rule: advance.induct)
  case (1 df idx t)
  show ?case
  proof (cases "idx + 1 < length df \<and> seg_start (df ! (idx + 1)) \<le> t")
    case True
    then have "advance df idx t = advance df (idx + 1) t"
      by (subst advance.simps) simp
    with "1.IH" [OF True] True show ?thesis by simp
  next
    case False
    then have "advance df idx t = idx"
      by (subst advance.simps) simp
    with False "1.prems" show ?thesis by auto
  qed
qed

lemma value_at_segment:
  assumes v: "validate df = Inr ()" and k: "k < length df"
    and t: "seg_start (df ! k) \<le> t" "t < seg_end (df ! k)"
  shows "value_at df t = Some (seg_value (df ! k))"
proof -
  let ?P = "\<lambda>s. seg_start s \<le> t \<and> t < seg_end s"
  have "\<not> ?P (df ! j)" if "j < k" for j
  proof -
    from v that k have "seg_end (df ! j) \<le> seg_start (df ! k)"
      by (rule valid_nth_end_le_start)
    with t show ?thesis by simp
  qed
  with k t have "find ?P df = Some (df ! k)"
    unfolding find_Some_iff by blast
  then show ?thesis by (simp add: value_at_def)
qed

lemma cursor_value:
  assumes v: "validate df = Inr ()" and e: "tl_end df = Inr b" and "t < b"
    and i: "idx < length df" "seg_start (df ! idx) \<le> t"
  shows "at_value df (advance df idx t) = Inr (seg_value (df ! advance df idx t))"
    and "value_at df t = Some (seg_value (df ! advance df idx t))"
proof -
  let ?k = "advance df idx t"
  from advance_cursor [OF i] have k: "?k < length df" and s: "seg_start (df ! ?k) \<le> t"
    and n: "Suc ?k < length df \<longrightarrow> t < seg_start (df ! Suc ?k)" by blast+
  from k show "at_value df ?k = Inr (seg_value (df ! ?k))" by (simp add: at_value_def)
  have "t < seg_end (df ! ?k)"
  proof (cases "Suc ?k < length df")
    case True
    with v have "seg_end (df ! ?k) = seg_start (df ! Suc ?k)" by (simp add: valid_nth_contiguous)
    with n True show ?thesis by simp
  next
    case False
    with k have "?k = length df - 1" by simp
    moreover from e k have "b = seg_end (df ! (length df - 1))"
      by (auto simp: tl_end_def last_conv_nth split: if_splits)
    ultimately show ?thesis using \<open>t < b\<close> by simp
  qed
  with v k s show "value_at df t = Some (seg_value (df ! ?k))" by (rule value_at_segment)
qed

section \<open>The loops of the sweep\<close>

lemma inner_loop_values:
  assumes "list_all2 (\<lambda>df idx. idx < length df \<and> seg_start (df ! idx) \<le> t) dfs idxs"
    and "\<forall>df \<in> set dfs. validate df = Inr () \<and> tl_end df = Inr b" and "t < b"
  shows "\<exists>idxs'. inner_loop dfs idxs t = Inr (idxs', map (\<lambda>df. the (value_at df t)) dfs) \<and>
           list_all2 (\<lambda>df idx. idx < length df \<and> seg_start (df ! idx) \<le> t) dfs idxs' \<and>
           (\<forall>df \<in> set dfs. value_at df t \<noteq> None)"
  using assms(1,2)
proof (induction dfs idxs rule: list_all2_induct)
  case Nil
  show ?case by simp
next
  case (Cons df dfs idx idxs)
  let ?k = "advance df idx t"
  from Cons.prems have v: "validate df = Inr ()" and e: "tl_end df = Inr b" by simp_all
  from Cons.hyps(1) have i: "idx < length df" "seg_start (df ! idx) \<le> t" by simp_all
  note c = cursor_value [OF v e \<open>t < b\<close> i]
  from advance_cursor [OF i] have k: "?k < length df \<and> seg_start (df ! ?k) \<le> t" by blast
  from Cons.IH Cons.prems obtain idxs' where
    r: "inner_loop dfs idxs t = Inr (idxs', map (\<lambda>df. the (value_at df t)) dfs)"
    and inv: "list_all2 (\<lambda>df idx. idx < length df \<and> seg_start (df ! idx) \<le> t) dfs idxs'"
    and some: "\<forall>df \<in> set dfs. value_at df t \<noteq> None"
    by auto
  have "inner_loop (df # dfs) (idx # idxs) t =
      Inr (?k # idxs', map (\<lambda>df. the (value_at df t)) (df # dfs))"
    using c r by (simp add: Let_def)
  moreover have "list_all2 (\<lambda>df idx. idx < length df \<and> seg_start (df ! idx) \<le> t)
      (df # dfs) (?k # idxs')"
    using k inv by simp
  moreover have "\<forall>d \<in> set (df # dfs). value_at d t \<noteq> None"
    using c some by simp
  ultimately show ?case by blast
qed

lemma outer_loop_segments:
  assumes dfs: "\<forall>df \<in> set dfs. validate df = Inr () \<and> tl_end df = Inr b"
  shows "sorted_wrt (<) bs \<Longrightarrow> \<forall>x \<in> set bs. x \<le> b \<Longrightarrow>
     (bs \<noteq> [] \<longrightarrow> list_all2 (\<lambda>df idx. idx < length df \<and> seg_start (df ! idx) \<le> hd bs) dfs idxs) \<Longrightarrow>
     outer_loop dfs idxs bs =
       Inr (map (\<lambda>(t, t'). (t, t', map (\<lambda>df. the (value_at df t)) dfs)) (zip bs (tl bs))) \<and>
     (\<forall>t \<in> set (butlast bs). \<forall>df \<in> set dfs. value_at df t \<noteq> None)"
proof (induction bs arbitrary: idxs)
  case Nil
  show ?case by simp
next
  case (Cons t rest)
  show ?case
  proof (cases rest)
    case Nil
    then show ?thesis by simp
  next
    case (Cons t' rest')
    from Cons.prems(1,2) Cons have lt: "t < t'" and le: "t' \<le> b" by simp_all
    then have tb: "t < b" by simp
    from Cons.prems(3)
    have inv: "list_all2 (\<lambda>df idx. idx < length df \<and> seg_start (df ! idx) \<le> t) dfs idxs"
      by simp
    from inner_loop_values [OF inv dfs tb] obtain idxs' where
      r: "inner_loop dfs idxs t = Inr (idxs', map (\<lambda>df. the (value_at df t)) dfs)"
      and inv': "list_all2 (\<lambda>df idx. idx < length df \<and> seg_start (df ! idx) \<le> t) dfs idxs'"
      and some: "\<forall>df \<in> set dfs. value_at df t \<noteq> None"
      by blast
    from inv' lt
    have "list_all2 (\<lambda>df idx. idx < length df \<and> seg_start (df ! idx) \<le> t') dfs idxs'"
      by (auto elim!: list_all2_mono)
    with Cons have 3: "rest \<noteq> [] \<longrightarrow>
        list_all2 (\<lambda>df idx. idx < length df \<and> seg_start (df ! idx) \<le> hd rest) dfs idxs'"
      by simp
    from Cons.prems(1) have 1: "sorted_wrt (<) rest" by simp
    from Cons.prems(2) have 2: "\<forall>x \<in> set rest. x \<le> b" by simp
    note ih = Cons.IH [OF 1 2 3]
    from ih r Cons have "outer_loop dfs idxs (t # rest) =
        Inr (map (\<lambda>(t, t'). (t, t', map (\<lambda>df. the (value_at df t)) dfs))
          (zip (t # rest) (tl (t # rest))))"
      by simp
    moreover from ih some Cons
    have "\<forall>x \<in> set (butlast (t # rest)). \<forall>df \<in> set dfs. value_at df x \<noteq> None"
      by simp
    ultimately show ?thesis by blast
  qed
qed

section \<open>The boundaries of the sweep\<close>

lemma boundaries_eq: "boundaries timelines = all_boundaries timelines"
proof -
  have "(\<Union>df \<in> set timelines. seg_start ` set df \<union> seg_end ` set df) =
      set (concat (map (\<lambda>df. map seg_start df @ map seg_end df) timelines))"
    by auto
  then show ?thesis
    by (simp only: boundaries_def all_boundaries_def sorted_list_of_set_sort_remdups)
qed

lemma boundaries_strict: "sorted_wrt (<) (boundaries timelines)"
  by (simp add: boundaries_def strict_sorted_iff)

lemma set_boundaries:
  "set (boundaries timelines) = (\<Union>df \<in> set timelines. seg_start ` set df \<union> seg_end ` set df)"
  by (auto simp: boundaries_def)

lemma timeline_bounds:
  assumes v: "validate df = Inr ()" and a: "tl_start df = Inr a" and b: "tl_end df = Inr b"
  shows "df \<noteq> []" and "seg_start (df ! 0) = a" and "seg_end (df ! (length df - 1)) = b"
    and "\<forall>s \<in> set df. a \<le> seg_start s \<and> seg_start s < seg_end s \<and> seg_end s \<le> b"
proof -
  from a show ne: "df \<noteq> []" by (auto simp: tl_start_def)
  with a show a0: "seg_start (df ! 0) = a" by (simp add: tl_start_nth)
  from b ne show b0: "seg_end (df ! (length df - 1)) = b"
    by (simp add: tl_end_def last_conv_nth)
  show "\<forall>s \<in> set df. a \<le> seg_start s \<and> seg_start s < seg_end s \<and> seg_end s \<le> b"
  proof
    fix s assume "s \<in> set df"
    then obtain i where i: "i < length df" "s = df ! i" by (auto simp: in_set_conv_nth)
    from valid_nth_start_mono [OF v, of 0 i] valid_nth_positive [OF v, of i]
      valid_nth_end_mono [OF v, of i "length df - 1"] i a0 b0 ne
    show "a \<le> seg_start s \<and> seg_start s < seg_end s \<and> seg_end s \<le> b" by simp
  qed
qed

lemma boundaries_range:
  assumes ne: "timelines \<noteq> []"
    and tls: "\<forall>df \<in> set timelines. validate df = Inr () \<and> tl_start df = Inr a \<and> tl_end df = Inr b"
  shows "\<forall>x \<in> set (boundaries timelines). a \<le> x \<and> x \<le> b"
    and "a \<in> set (boundaries timelines)" and "b \<in> set (boundaries timelines)" and "a < b"
proof -
  show "\<forall>x \<in> set (boundaries timelines). a \<le> x \<and> x \<le> b"
  proof
    fix x assume "x \<in> set (boundaries timelines)"
    then obtain df s where d: "df \<in> set timelines" "s \<in> set df" "x = seg_start s \<or> x = seg_end s"
      by (auto simp: set_boundaries)
    with tls have "validate df = Inr ()" "tl_start df = Inr a" "tl_end df = Inr b" by simp_all
    from timeline_bounds(4) [OF this] d show "a \<le> x \<and> x \<le> b" by auto
  qed
  from ne obtain df where df: "df \<in> set timelines" by (cases timelines) auto
  with tls have h: "validate df = Inr ()" "tl_start df = Inr a" "tl_end df = Inr b" by simp_all
  note tb = timeline_bounds [OF h]
  from tb(1) have m: "df ! 0 \<in> set df" "df ! (length df - 1) \<in> set df" by simp_all
  with tb(2,3) have "a \<in> seg_start ` set df" "b \<in> seg_end ` set df" by force+
  with df show "a \<in> set (boundaries timelines)" "b \<in> set (boundaries timelines)"
    by (auto simp: set_boundaries)
  from tb(4) m(1) tb(2) show "a < b" by force
qed

lemma sorted_hd_least: "sorted xs \<Longrightarrow> x \<in> set xs \<Longrightarrow> hd xs \<le> x"
  by (cases xs) auto

lemma chain_pairs:
  "sorted_wrt (<) bs \<Longrightarrow> chain (map (\<lambda>(t, t'). (t, t', f t)) (zip bs (tl bs)))"
proof (induction bs)
  case Nil
  show ?case by simp
next
  case (Cons t rest)
  show ?case
  proof (cases rest)
    case Nil
    then show ?thesis by simp
  next
    case c: (Cons t' rest')
    show ?thesis
    proof (cases rest')
      case Nil
      with c Cons.prems show ?thesis by simp
    next
      case (Cons t'' rest'')
      with c Cons.prems Cons.IH show ?thesis by simp
    qed
  qed
qed

lemma all_same_const: "all_same (map (\<lambda>_. a) xs)"
  by (cases xs) (simp_all add: all_same_def list_all_iff)

lemma collect_const: "\<forall>x \<in> set xs. f x = Inr a \<Longrightarrow> collect f xs = Inr (map (\<lambda>_. a) xs)"
  by (induction xs) simp_all

section \<open>\<^verbatim>\<open>cross_product\<close>\<close>

lemma cross_product_result:
  assumes ne: "timelines \<noteq> []"
    and tls: "\<forall>df \<in> set timelines. validate df = Inr () \<and> tl_start df = Inr a \<and> tl_end df = Inr b"
  shows "cross_product timelines =
      Inr (map (\<lambda>(t, t'). (t, t', map (\<lambda>df. the (value_at df t)) timelines))
        (zip (boundaries timelines) (tl (boundaries timelines))))"
    and "\<forall>t \<in> set (butlast (boundaries timelines)). \<forall>df \<in> set timelines. value_at df t \<noteq> None"
proof -
  let ?B = "boundaries timelines"
  let ?out = "map (\<lambda>(t, t'). (t, t', map (\<lambda>df. the (value_at df t)) timelines)) (zip ?B (tl ?B))"
  note r = boundaries_range [OF ne tls]
  from tls have e: "\<forall>df \<in> set timelines. validate df = Inr () \<and> tl_end df = Inr b" by simp
  have s: "sorted_wrt (<) ?B" by (rule boundaries_strict)
  then have srt: "sorted ?B" by (rule strict_sorted_imp_sorted)
  from r(1) have ub: "\<forall>x \<in> set ?B. x \<le> b" by simp
  from r(2) have bne: "?B \<noteq> []" by auto
  then have "hd ?B \<in> set ?B" by simp
  with r(1) sorted_hd_least [OF srt r(2)] have hd: "hd ?B = a" by force
  have inv: "list_all2 (\<lambda>df idx. idx < length df \<and> seg_start (df ! idx) \<le> hd ?B)
      timelines (replicate (length timelines) 0)"
    unfolding list_all2_conv_all_nth
  proof (intro conjI allI impI)
    fix i assume i: "i < length timelines"
    then have "timelines ! i \<in> set timelines" by simp
    with tls have "validate (timelines ! i) = Inr ()" "tl_start (timelines ! i) = Inr a"
      "tl_end (timelines ! i) = Inr b" by simp_all
    from timeline_bounds(1,2) [OF this] hd i
    show "replicate (length timelines) 0 ! i < length (timelines ! i)"
      and "seg_start (timelines ! i ! (replicate (length timelines) 0 ! i)) \<le> hd ?B"
      by simp_all
  qed simp
  from outer_loop_segments [OF e s ub, of "replicate (length timelines) 0"] inv
  have o: "outer_loop timelines (replicate (length timelines) 0) ?B = Inr ?out"
    and some: "\<forall>t \<in> set (butlast ?B). \<forall>df \<in> set timelines. value_at df t \<noteq> None"
    by blast+
  from some show "\<forall>t \<in> set (butlast ?B). \<forall>df \<in> set timelines. value_at df t \<noteq> None" .
  have "chain ?out" using s by (rule chain_pairs)
  moreover have "?out \<noteq> []"
  proof -
    from bne obtain t rest where c: "?B = t # rest" by (cases ?B) auto
    with hd have "t = a" by simp
    with r(3,4) c have "rest \<noteq> []" by auto
    with c show ?thesis by (cases rest) simp_all
  qed
  ultimately have "validate ?out = Inr ()" by (simp add: validate_chain)
  then have f: "from_segments ?out = Inr ?out" by (simp add: from_segments_def)
  from tls have "collect tl_start timelines = Inr (map (\<lambda>_. a) timelines)"
    "collect tl_end timelines = Inr (map (\<lambda>_. b) timelines)"
    by (simp_all add: collect_const)
  with o f show "cross_product timelines = Inr ?out"
    by (simp add: cross_product_def all_same_const)
qed

lemma zip_tl_butlast: "(t, t') \<in> set (zip bs (tl bs)) \<Longrightarrow> t \<in> set (butlast bs)"
proof -
  assume "(t, t') \<in> set (zip bs (tl bs))"
  then obtain n where n: "bs ! n = t" "n < length (tl bs)" by (auto simp: in_set_zip)
  then have "n < length (butlast bs)" "butlast bs ! n = t" by (simp_all add: nth_butlast)
  then show ?thesis by (metis nth_mem)
qed

text \<open>
  Claim C1. For one or more timelines that pass the validator and share the total start
  \<open>a\<close> and the total end \<open>b\<close>, \<^verbatim>\<open>cross_product\<close> succeeds. Its segments are, in order,
  exactly the pairs of neighbours \<open>(b\<^sub>i, b\<^sub>i\<^sub>+\<^sub>1)\<close> of the ascending list without duplicates of
  all starts and ends of all input segments, one segment per pair (so neighbours with
  equal tuples stay apart); every input timeline holds a value at \<open>b\<^sub>i\<close>, and the value of
  the segment is the list of these values in the order of the input timelines.
\<close>

theorem cross_product_sweep:
  "timelines \<noteq> [] \<Longrightarrow>
   \<forall>df \<in> set timelines. validate df = Inr () \<and> tl_start df = Inr a \<and> tl_end df = Inr b \<Longrightarrow>
     (\<exists>out. cross_product timelines = Inr out \<and>
        map (\<lambda>seg. (seg_start seg, seg_end seg, map Some (seg_value seg))) out =
          cross_spec timelines \<and>
        length out = length (all_boundaries timelines) - 1)"
proof -
  assume ne: "timelines \<noteq> []"
    and tls: "\<forall>df \<in> set timelines. validate df = Inr () \<and> tl_start df = Inr a \<and> tl_end df = Inr b"
  let ?B = "boundaries timelines"
  let ?out = "map (\<lambda>(t, t'). (t, t', map (\<lambda>df. the (value_at df t)) timelines)) (zip ?B (tl ?B))"
  note r = cross_product_result [OF ne tls]
  have "map (\<lambda>seg. (seg_start seg, seg_end seg, map Some (seg_value seg))) ?out =
      map (\<lambda>(t, t'). (t, t', map (\<lambda>df. value_at df t) timelines)) (zip ?B (tl ?B))"
    unfolding map_map
  proof (rule map_cong [OF refl])
    fix p assume p: "p \<in> set (zip ?B (tl ?B))"
    obtain t t' where pt: "p = (t, t')" by (cases p)
    with p have "t \<in> set (butlast ?B)" by (auto dest: zip_tl_butlast)
    with r(2) have "\<forall>df \<in> set timelines. value_at df t \<noteq> None" by blast
    then have "map Some (map (\<lambda>df. the (value_at df t)) timelines) =
        map (\<lambda>df. value_at df t) timelines" by auto
    with pt show "((\<lambda>seg. (seg_start seg, seg_end seg, map Some (seg_value seg))) \<circ>
        (\<lambda>(t, t'). (t, t', map (\<lambda>df. the (value_at df t)) timelines))) p =
        (case p of (t, t') \<Rightarrow> (t, t', map (\<lambda>df. value_at df t) timelines))"
      by simp
  qed
  then have "map (\<lambda>seg. (seg_start seg, seg_end seg, map Some (seg_value seg))) ?out =
      cross_spec timelines"
    by (simp only: cross_spec_def boundaries_eq)
  moreover have "length ?out = length (all_boundaries timelines) - 1"
    by (simp add: boundaries_eq)
  ultimately show ?thesis using r(1) by blast
qed

theorem cross_product_sweep_witness:
  "cross_product [[(0, 5, 1::int), (5, 10, 2)], [(0, 3, 3), (3, 7, 4), (7, 10, 5)]] =
     Inr [(0, 3, [1, 3]), (3, 5, [1, 4]), (5, 7, [2, 4]), (7, 10, [2, 5])] \<and>
   cross_spec [[(0, 5, 1::int), (5, 10, 2)], [(0, 3, 3), (3, 7, 4), (7, 10, 5)]] =
     [(0, 3, [Some 1, Some 3]), (3, 5, [Some 1, Some 4]),
      (5, 7, [Some 2, Some 4]), (7, 10, [Some 2, Some 5])] \<and>
   cross_product [[(0, 5, 1::int), (5, 10, 1)]] = Inr [(0, 5, [1]), (5, 10, [1])] \<and>
   cross_spec [[(0, 5, 1::int), (5, 10, 1)]] = [(0, 5, [Some 1]), (5, 10, [Some 1])]"
proof -
  let ?X = "[[(0, 5, 1::int), (5, 10, 2)], [(0, 3, 3), (3, 7, 4), (7, 10, 5)]] :: int timeline list"
  let ?Y = "[[(0, 5, 1::int), (5, 10, 1)]] :: int timeline list"
  have x: "?X \<noteq> []"
    "\<forall>df \<in> set ?X. validate df = Inr () \<and> tl_start df = Inr 0 \<and> tl_end df = Inr 10"
    by (simp_all add: validate_def tl_start_def tl_end_def)
  have y: "?Y \<noteq> []"
    "\<forall>df \<in> set ?Y. validate df = Inr () \<and> tl_start df = Inr 0 \<and> tl_end df = Inr 10"
    by (simp_all add: validate_def tl_start_def tl_end_def)
  have ex: "cross_product ?X = Inr [(0, 3, [1, 3]), (3, 5, [1, 4]), (5, 7, [2, 4]), (7, 10, [2, 5])]"
    by code_simp
  have ey: "cross_product ?Y = Inr [(0, 5, [1]), (5, 10, [1])]"
    by code_simp
  from cross_product_sweep [OF x] ex
  have sx: "cross_spec ?X = [(0, 3, [Some 1, Some 3]), (3, 5, [Some 1, Some 4]),
      (5, 7, [Some 2, Some 4]), (7, 10, [Some 2, Some 5])]"
    by auto
  from cross_product_sweep [OF y] ey
  have sy: "cross_spec ?Y = [(0, 5, [Some 1]), (5, 10, [Some 1])]"
    by auto
  from ex ey sx sy show ?thesis by blast
qed

end
